theory Spec2Isabelle
  imports Main
begin

section \<open>String primitives of the runtime\<close>

text \<open>
  The server is TypeScript. A text is a list of code units. The functions that take
  texts apart and put them together (\<open>startsWith\<close>, \<open>includes\<close>, \<open>split\<close>, \<open>join\<close>,
  \<open>slice\<close>) and the search built from them are defined for every type of code units;
  the handlers and the world they read from are modelled on \<^typ>\<open>string\<close>, whose
  code units are the 256 values of \<^typ>\<open>char\<close>.
\<close>

definition newline :: char where
  "newline = CHR 0x0A"

text \<open>
  \<open>s.toLowerCase()\<close> is a function of the runtime. On a text of ASCII code units it
  turns the letters \<open>A-Z\<close> into \<open>a-z\<close> and leaves every other code unit as it is. On
  any other text the result is what the Unicode case tables of the runtime say; they
  are not part of the program, and \<open>unicode\<close> stands for them.
\<close>

definition is_ascii :: "string \<Rightarrow> bool" where
  "is_ascii s = list_all (\<lambda>c. (of_char c :: nat) < 128) s"

definition toLowerAscii :: "char \<Rightarrow> char" where
  "toLowerAscii c =
     (let n = (of_char c :: nat) in if 65 \<le> n \<and> n \<le> 90 then char_of (n + 32) else c)"

definition toLowerCase :: "(string \<Rightarrow> string) \<Rightarrow> string \<Rightarrow> string" where
  "toLowerCase unicode s = (if is_ascii s then map toLowerAscii s else unicode s)"

text \<open>
  \<open>s.toUpperCase()\<close>, which the program applies to the names of the platforms only
  (\<open>backend\<close>, \<open>frontend\<close>, \<open>mobile\<close>): the letters \<open>a-z\<close> become \<open>A-Z\<close>.
\<close>

definition toUpperChar :: "char \<Rightarrow> char" where
  "toUpperChar c =
     (let n = (of_char c :: nat) in if 97 \<le> n \<and> n \<le> 122 then char_of (n - 32) else c)"

definition toUpperCase :: "string \<Rightarrow> string" where
  "toUpperCase s = map toUpperChar s"

text \<open>\<open>s.startsWith(p)\<close>.\<close>

fun startsWith :: "'c list \<Rightarrow> 'c list \<Rightarrow> bool" where
  "startsWith s [] = True"
| "startsWith [] (p # ps) = False"
| "startsWith (c # cs) (p # ps) = (c = p \<and> startsWith cs ps)"

text \<open>\<open>s.includes(q)\<close>: \<open>q\<close> occurs in \<open>s\<close> as a contiguous substring.\<close>

fun includes_str :: "'c list \<Rightarrow> 'c list \<Rightarrow> bool" where
  "includes_str [] q = (q = [])"
| "includes_str (c # cs) q = (startsWith (c # cs) q \<or> includes_str cs q)"

text \<open>\<open>s.split(sep)\<close> for a separator of one code unit: the empty text gives one
  empty part, and every separator starts a further part.\<close>

fun split_str :: "'c \<Rightarrow> 'c list \<Rightarrow> 'c list list" where
  "split_str sep [] = [[]]"
| "split_str sep (c # cs) =
     (if c = sep then [] # split_str sep cs
      else (case split_str sep cs of
              [] \<Rightarrow> [[c]]
            | l # ls \<Rightarrow> (c # l) # ls))"

text \<open>\<open>content.split('\n')\<close>.\<close>

definition split_lines :: "string \<Rightarrow> string list" where
  "split_lines content = split_str newline content"

text \<open>\<open>xs.join(sep)\<close>.\<close>

fun join :: "'c list \<Rightarrow> 'c list list \<Rightarrow> 'c list" where
  "join sep [] = []"
| "join sep [x] = x"
| "join sep (x # y # ys) = x @ sep @ join sep (y # ys)"

text \<open>\<open>xs.slice(start, end)\<close>, with the negative indices of the runtime counted
  from the end and both indices clamped to the array.\<close>

definition slice :: "'a list \<Rightarrow> int \<Rightarrow> int \<Rightarrow> 'a list" where
  "slice xs start end' =
     (let n = int (length xs);
          s = (if start < 0 then max 0 (n + start) else min start n);
          e = (if end' < 0 then max 0 (n + end') else min end' n)
      in take (nat (e - s)) (drop (nat s) xs))"

text \<open>Decimal rendering of a number in a template string.\<close>

definition digit_char :: "nat \<Rightarrow> char" where
  "digit_char d = char_of (48 + d)"

fun show_nat :: "nat \<Rightarrow> string" where
  "show_nat n = (if n < 10 then [digit_char n] else show_nat (n div 10) @ [digit_char (n mod 10)])"

declare show_nat.simps [simp del]

section \<open>Search over a guideline document\<close>

text \<open>
  The body of the \<open>search_best_practices\<close> handler after the document is read:
  \<^verbatim>\<open>
  const lines = content.split('\n');
  const matches: string[] = [];
  const queryLower = query.toLowerCase();
  lines.forEach((line, index) => {
    if (line.toLowerCase().includes(queryLower)) {
      const start = Math.max(0, index - 2);
      const end = Math.min(lines.length, index + 3);
      const context = lines.slice(start, end).join('\n');
      matches.push(`\n--- Line ${index + 1} ---\n${context}\n`);
    }
  });
  \<close>
  A match keeps the two values the template string is built from; \<open>render_match\<close> is
  the template. The loop is written for texts over any type of code units: \<open>nl\<close> is
  the code unit of \<open>'\n'\<close>, and \<open>lower\<close> is the \<open>toLowerCase\<close> of the runtime.
\<close>

record 'c match =
  lineNumber :: nat
  contextBlock :: "'c list"

definition render_match :: "char match \<Rightarrow> string" where
  "render_match m =
     [newline] @ ''--- Line '' @ show_nat (lineNumber m) @ '' ---'' @ [newline]
       @ contextBlock m @ [newline]"

definition match_at :: "'c \<Rightarrow> 'c list list \<Rightarrow> nat \<Rightarrow> 'c match" where
  "match_at nl lines index =
     (let start = max 0 (int index - 2);
          end' = min (int (length lines)) (int index + 3);
          context = join [nl] (slice lines start end')
      in \<lparr>lineNumber = index + 1, contextBlock = context\<rparr>)"

text \<open>The \<open>forEach\<close> loop: \<open>rest\<close> is what is left of \<open>lines\<close> from \<open>index\<close> on, and
  \<open>matches\<close> is the array being pushed to.\<close>

fun forEach_line ::
  "'c \<Rightarrow> ('c list \<Rightarrow> 'c list) \<Rightarrow> 'c list list \<Rightarrow> 'c list \<Rightarrow> 'c list list \<Rightarrow> nat
     \<Rightarrow> 'c match list \<Rightarrow> 'c match list" where
  "forEach_line nl lower lines queryLower [] index matches = matches"
| "forEach_line nl lower lines queryLower (line # rest) index matches =
     forEach_line nl lower lines queryLower rest (index + 1)
       (if includes_str (lower line) queryLower
        then matches @ [match_at nl lines index]
        else matches)"

definition search :: "'c \<Rightarrow> ('c list \<Rightarrow> 'c list) \<Rightarrow> 'c list \<Rightarrow> 'c list \<Rightarrow> 'c match list" where
  "search nl lower content query =
     (let lines = split_str nl content;
          queryLower = lower query
      in forEach_line nl lower lines queryLower lines 0 [])"

section \<open>Configuration\<close>

text \<open>\<open>config.ts\<close>: the platforms are the values of the enum, in declaration order.\<close>

datatype PLATFORMS = BACKEND | FRONTEND | MOBILE

fun platform_value :: "PLATFORMS \<Rightarrow> string" where
  "platform_value BACKEND = ''backend''"
| "platform_value FRONTEND = ''frontend''"
| "platform_value MOBILE = ''mobile''"

definition config_platforms :: "PLATFORMS list" where
  "config_platforms = [BACKEND, FRONTEND, MOBILE]"

section \<open>The world the repository tools act on\<close>

text \<open>
  A directory listing as \<open>fs.readdir(dir, {withFileTypes: true})\<close> returns it, in the
  order of the storage layer: a file with its text, or a directory with its own listing.
\<close>

datatype dirent = FileEnt string string | DirEnt string "dirent list"

fun entry_name :: "dirent \<Rightarrow> string" where
  "entry_name (FileEnt name content) = name"
| "entry_name (DirEnt name children) = name"

text \<open>
  The names a file system gives its entries are not empty and hold no path separator.
\<close>

definition valid_name :: "string \<Rightarrow> bool" where
  "valid_name name = (name \<noteq> [] \<and> CHR ''/'' \<notin> set name)"

fun valid_entries :: "dirent list \<Rightarrow> bool" where
  "valid_entries [] = True"
| "valid_entries (FileEnt name content # entries) = (valid_name name \<and> valid_entries entries)"
| "valid_entries (DirEnt name children # entries) =
     (valid_name name \<and> valid_entries children \<and> valid_entries entries)"

text \<open>
  The working copy, as far as the server looks at it: for each platform the listing of
  \<open>path.join(dir, config.boilerplateDir, platform)\<close>, or \<open>None\<close> where that directory
  does not exist.
\<close>

type_synonym working_copy = "PLATFORMS \<Rightarrow> dirent list option"

text \<open>A rejected promise or a thrown exception carries an \<open>Error\<close> with its message.\<close>

datatype error = Error string

fun error_message :: "error \<Rightarrow> string" where
  "error_message (Error m) = m"

text \<open>\<open>`${error}`\<close> in a template string.\<close>

definition error_to_string :: "error \<Rightarrow> string" where
  "error_to_string e = ''Error: '' @ error_message e"

datatype level = LOG | WARN | ERROR

text \<open>A call of one of the functions \<open>repoTools\<close> returns. The world keeps the calls in
  the order they are made, so that what a handler calls, and in which order, can be
  stated; the program itself keeps no such list.\<close>

datatype call = CallEnsureRepo | CallGetDirectoryStructure PLATFORMS | CallReadAgentsMd PLATFORMS

text \<open>
  \<open>repoDir\<close> is the local directory \<open>dir\<close>: \<open>None\<close> when \<open>fs.access(dir)\<close> rejects.
  \<open>console\<close> collects what is written with \<open>console.log\<close>, \<open>console.warn\<close> and
  \<open>console.error\<close>.
\<close>

record world =
  repoDir :: "working_copy option"
  console :: "(level \<times> string) list"
  calls :: "call list"

text \<open>
  The remote side and the \<open>git\<close> binary are outside the program: a clone or a pull takes
  the local directory as it is and leaves it in some state, with or without an error.
\<close>

record remote =
  git_clone :: "working_copy option \<Rightarrow> error option \<times> working_copy option"
  git_pull :: "working_copy option \<Rightarrow> error option \<times> working_copy option"

definition console_write :: "level \<Rightarrow> string \<Rightarrow> world \<Rightarrow> world" where
  "console_write l msg w = w\<lparr>console := console w @ [(l, msg)]\<rparr>"

definition record_call :: "call \<Rightarrow> world \<Rightarrow> world" where
  "record_call c w = w\<lparr>calls := calls w @ [c]\<rparr>"

section \<open>Repository tools\<close>

text \<open>
  \<^verbatim>\<open>
  async function ensureRepo(): Promise<void> {
    try {
      const exists = await fs.access(dir)
        .then(() => true)
        .catch((error) => {
          console.warn(`Something went wrong accessing the repository directory: ${error}`);
          return false;
        });
      if (!exists) {
        console.log("Cloning repository...");
        await git.clone(url, dir);
      } else {
        console.log("Pulling repository...");
        await simpleGit(dir).pull();
      }
    } catch (error) {
      console.error("Error managing repository:", error);
      throw error;
    }
  }
  \<close>
\<close>

definition access_error :: error where
  "access_error = Error ''ENOENT: no such file or directory''"

definition ensureRepo :: "remote \<Rightarrow> world \<Rightarrow> (error + unit) \<times> world" where
  "ensureRepo r w0 =
     (let w = record_call CallEnsureRepo w0;
          exists = (repoDir w \<noteq> None);
          w1 = (if exists then w
                else console_write WARN
                       (''Something went wrong accessing the repository directory: ''
                          @ error_to_string access_error) w);
          w2 = (if \<not> exists then console_write LOG ''Cloning repository...'' w1
                else console_write LOG ''Pulling repository...'' w1);
          (failure, dir') = (if \<not> exists then git_clone r (repoDir w2)
                             else git_pull r (repoDir w2));
          w3 = w2\<lparr>repoDir := dir'\<rparr>
      in case failure of
           None \<Rightarrow> (Inr (), w3)
         | Some e \<Rightarrow>
             (Inl e, console_write ERROR (''Error managing repository: '' @ error_to_string e) w3))"

text \<open>
  \<open>path.join(prefix, name)\<close> for the names a directory listing holds (not empty, no
  separator inside, neither \<open>.\<close> nor \<open>..\<close>): nothing is normalised away, and an empty
  prefix contributes nothing.
\<close>

definition path_join :: "string \<Rightarrow> string \<Rightarrow> string" where
  "path_join prefix name = (if prefix = [] then name else prefix @ ''/'' @ name)"

text \<open>
  \<^verbatim>\<open>
  async function traverse(dir: string, prefix: string = ""): Promise<void> {
    console.log(`Reading directory: ${dir}`);
    const entries = await fs.readdir( dir, {withFileTypes: true });
    for (const entry of entries) {
      if (entry.name.startsWith('.') || entry.name === 'node_modules') continue;
      const fullPath = path.join(dir, entry.name);
      const relativePath = path.join(prefix, entry.name);
      if (entry.isDirectory()) {
        files.push(`${relativePath}/`);
        await traverse(fullPath, relativePath);
      } else {
        files.push(relativePath);
      }
    }
  }
  \<close>
  \<open>files\<close> is the array of the enclosing function, pushed to by every call; the
  listing of \<open>dir\<close> is the first argument, and \<open>entry.isDirectory()\<close> is the case
  distinction on the entry. \<open>skipped\<close> is the test of the \<open>continue\<close>. The line each
  call writes to the console is left out.
\<close>

definition skipped :: "string \<Rightarrow> bool" where
  "skipped name = (startsWith name ''.'' \<or> name = ''node_modules'')"

fun traverse :: "dirent list \<Rightarrow> string \<Rightarrow> string list \<Rightarrow> string list" where
  "traverse [] prefix files = files"
| "traverse (entry # entries) prefix files =
     (if skipped (entry_name entry)
      then traverse entries prefix files
      else
        (let relativePath = path_join prefix (entry_name entry)
         in case entry of
              DirEnt name children \<Rightarrow>
                traverse entries prefix (traverse children relativePath (files @ [relativePath @ ''/'']))
            | FileEnt name content \<Rightarrow>
                traverse entries prefix (files @ [relativePath])))"

text \<open>The listing of a platform's directory; \<open>fs.readdir\<close> rejects when the directory
  is missing.\<close>

definition readdir_platform :: "world \<Rightarrow> PLATFORMS \<Rightarrow> error + dirent list" where
  "readdir_platform w platform =
     (case repoDir w of
        None \<Rightarrow> Inl (Error ''ENOENT: no such file or directory, scandir'')
      | Some wc \<Rightarrow>
          (case wc platform of
             None \<Rightarrow> Inl (Error ''ENOENT: no such file or directory, scandir'')
           | Some entries \<Rightarrow> Inr entries))"

text \<open>
  \<^verbatim>\<open>
  async function getDirectoryStructure(platform: PLATFORMS): Promise<string[]> {
    const dirPath = path.join(process.cwd(), dir, config.boilerplateDir, platform);
    const files: string[] = [];
    ... (traverse, above) ...
    await traverse(dirPath);
    return files;
  }
  \<close>
\<close>

definition getDirectoryStructure :: "world \<Rightarrow> PLATFORMS \<Rightarrow> (error + string list) \<times> world" where
  "getDirectoryStructure w0 platform =
     (let w = record_call (CallGetDirectoryStructure platform) w0
      in case readdir_platform w platform of
           Inl e \<Rightarrow> (Inl e, w)
         | Inr entries \<Rightarrow> (Inr (traverse entries [] []), w))"

text \<open>\<open>fs.readFile(path.join(dir, config.boilerplateDir, platform, "AGENTS.md"), "utf-8")\<close>.\<close>

definition readFile_agents :: "world \<Rightarrow> PLATFORMS \<Rightarrow> error + string" where
  "readFile_agents w platform =
     (case repoDir w of
        None \<Rightarrow> Inl (Error ''ENOENT: no such file or directory, open'')
      | Some wc \<Rightarrow>
          (case wc platform of
             None \<Rightarrow> Inl (Error ''ENOENT: no such file or directory, open'')
           | Some entries \<Rightarrow>
               (case find (\<lambda>e. entry_name e = ''AGENTS.md'') entries of
                  None \<Rightarrow> Inl (Error ''ENOENT: no such file or directory, open'')
                | Some (DirEnt name children) \<Rightarrow>
                    Inl (Error ''EISDIR: illegal operation on a directory, read'')
                | Some (FileEnt name content) \<Rightarrow> Inr content)))"

text \<open>
  \<^verbatim>\<open>
  async function readAgentsMd(platform: PLATFORMS): Promise<string> {
    const filePath = path.join(dir, config.boilerplateDir, platform, "AGENTS.md");
    try {
      return await fs.readFile(filePath, "utf-8");
    } catch (error) {
      throw new Error(`Failed to read AGENTS.md for ${platform}: ${error}`);
    }
  }
  \<close>
\<close>

definition readAgentsMd :: "world \<Rightarrow> PLATFORMS \<Rightarrow> (error + string) \<times> world" where
  "readAgentsMd w0 platform =
     (let w = record_call (CallReadAgentsMd platform) w0
      in case readFile_agents w platform of
           Inl e \<Rightarrow>
             (Inl (Error (''Failed to read AGENTS.md for '' @ platform_value platform @ '': ''
                            @ error_to_string e)), w)
         | Inr content \<Rightarrow> (Inr content, w))"

section \<open>The handlers of the MCP server\<close>

definition dquote :: char where
  "dquote = CHR 0x22"

record resource_contents =
  res_uri :: string
  res_mimeType :: string
  res_text :: string

text \<open>
  The read callback of the resource registered for a platform:
  \<^verbatim>\<open>
  async (): Promise<ReadResourceResult> => {
    await ensureRepo();
    const content = await readAgentsMd(platform);
    return { contents: [ { uri: `boilerplate://${platform}/agents.md`,
                           mimeType: 'text/markdown', text: content } ] };
  }
  \<close>
\<close>

definition read_resource :: "remote \<Rightarrow> world \<Rightarrow> PLATFORMS \<Rightarrow> (error + resource_contents list) \<times> world" where
  "read_resource r w platform =
     (case ensureRepo r w of
        (Inl e, w1) \<Rightarrow> (Inl e, w1)
      | (Inr u, w1) \<Rightarrow>
          (case readAgentsMd w1 platform of
             (Inl e, w2) \<Rightarrow> (Inl e, w2)
           | (Inr content, w2) \<Rightarrow>
               (Inr [\<lparr>res_uri = ''boilerplate://'' @ platform_value platform @ ''/agents.md'',
                      res_mimeType = ''text/markdown'',
                      res_text = content\<rparr>], w2)))"

text \<open>
  \<^verbatim>\<open>
  async ({ platform }): Promise<CallToolResult> => {
    const structure = await getDirectoryStructure(platform as PLATFORMS);
    return { content: [ { type: 'text',
      text: `File structure for ${platform} boilerplate:\n\n${structure.join('\n')}` } ] };
  }
  \<close>
\<close>

definition get_boilerplate_structure :: "world \<Rightarrow> PLATFORMS \<Rightarrow> (error + string) \<times> world" where
  "get_boilerplate_structure w platform =
     (case getDirectoryStructure w platform of
        (Inl e, w1) \<Rightarrow> (Inl e, w1)
      | (Inr structure, w1) \<Rightarrow>
          (Inr (''File structure for '' @ platform_value platform @ '' boilerplate:''
                  @ [newline, newline] @ join [newline] structure), w1))"

text \<open>
  \<^verbatim>\<open>
  async ({ platform, query }): Promise<CallToolResult> => {
    const content = await readAgentsMd(platform as PLATFORMS);
    ... (the search above, filling matches) ...
    return { content: [ { type: 'text',
      text: matches.length > 0
        ? `Found ${matches.length} matches for "${query}" in ${platform} AGENTS.md:\n${matches.join('\n')}`
        : `No matches found for "${query}" in ${platform} AGENTS.md` } ] };
  }
  \<close>
  \<open>unicode\<close> is the part of \<open>toLowerCase\<close> that the runtime's case tables decide.
\<close>

definition search_best_practices ::
  "(string \<Rightarrow> string) \<Rightarrow> world \<Rightarrow> PLATFORMS \<Rightarrow> string \<Rightarrow> (error + string) \<times> world" where
  "search_best_practices unicode w platform query =
     (case readAgentsMd w platform of
        (Inl e, w1) \<Rightarrow> (Inl e, w1)
      | (Inr content, w1) \<Rightarrow>
          (let matches = map render_match (search newline (toLowerCase unicode) content query)
           in (Inr (if length matches > 0
                    then ''Found '' @ show_nat (length matches) @ '' matches for '' @ [dquote]
                           @ query @ [dquote] @ '' in '' @ platform_value platform
                           @ '' AGENTS.md:'' @ [newline] @ join [newline] matches
                    else ''No matches found for '' @ [dquote] @ query @ [dquote] @ '' in ''
                           @ platform_value platform @ '' AGENTS.md''), w1)))"

text \<open>
  \<^verbatim>\<open>
  async (): Promise<CallToolResult> => {
    const contexts = await Promise.all(
      config.platforms.map(async (platform) => {
        const content = await readAgentsMd(platform);
        return `## ${platform.toUpperCase()} AGENTS.md\n\n${content}`;
      })
    );
    return { content: [ { type: 'text', text: contexts.join('\n\n---\n\n') } ] };
  }
  \<close>
  \<open>map\<close> calls the function on every platform in array order, so every read is
  started whether or not another one fails. \<open>Promise.all\<close> gives the array of the
  results when all are fulfilled and rejects when one is rejected; the model reports
  the rejection that comes first in array order.
\<close>

definition context_heading :: "PLATFORMS \<Rightarrow> string" where
  "context_heading platform =
     ''## '' @ toUpperCase (platform_value platform) @ '' AGENTS.md'' @ [newline, newline]"

fun map_platforms :: "world \<Rightarrow> PLATFORMS list \<Rightarrow> (error + string) list \<times> world" where
  "map_platforms w [] = ([], w)"
| "map_platforms w (platform # rest) =
     (case readAgentsMd w platform of
        (result, w1) \<Rightarrow>
          (case map_platforms w1 rest of
             (results, w2) \<Rightarrow>
               ((case result of
                   Inl e \<Rightarrow> Inl e
                 | Inr content \<Rightarrow> Inr (context_heading platform @ content)) # results, w2)))"

fun Promise_all :: "(error + 'a) list \<Rightarrow> error + 'a list" where
  "Promise_all [] = Inr []"
| "Promise_all (Inl e # rest) = Inl e"
| "Promise_all (Inr x # rest) =
     (case Promise_all rest of Inl e \<Rightarrow> Inl e | Inr xs \<Rightarrow> Inr (x # xs))"

definition context_separator :: string where
  "context_separator = [newline, newline] @ ''---'' @ [newline, newline]"

definition get_all_contexts :: "world \<Rightarrow> (error + string) \<times> world" where
  "get_all_contexts w =
     (case map_platforms w config_platforms of
        (results, w1) \<Rightarrow>
          (case Promise_all results of
             Inl e \<Rightarrow> (Inl e, w1)
           | Inr contexts \<Rightarrow> (Inr (join context_separator contexts), w1)))"

section \<open>The HTTP application\<close>

datatype verb = GET | POST | PUT | PATCH | DELETE

record request =
  req_method :: verb
  req_path :: string

datatype body =
    JsonRpcError int string
  | HealthStatus string string
  | TransportReply string
  | NotFoundPage

record response =
  status :: nat
  body :: body

text \<open>
  \<open>createApp\<close> registers four routes. The POST route hands the request to the MCP
  transport, which is outside this file: \<open>transport\<close> gives its reply, or the exception
  it threw before any header was sent.
  \<^verbatim>\<open>
  app.post('/mcp', async (req, res) => {
    try { ... await transport.handleRequest(req, res, req.body); ... }
    catch (error) {
      if (!res.headersSent) {
        res.status(500).json({ jsonrpc: '2.0',
          error: { code: -32603, message: 'Internal server error' }, id: null });
      } } });
  app.get('/health', (_, res) => { res.json({ status: 'ok', service: 'boilerplate-context-mcp' }); });
  // Disallow GET/DELETE on /mcp
  app.get('/mcp', async (_, res) => {
    res.status(405).json({ jsonrpc: '2.0',
      error: { code: -32000, message: 'Method not allowed. Use POST.' }, id: null }); });
  app.delete('/mcp', async (_, res) => {
    res.status(405).json({ jsonrpc: '2.0',
      error: { code: -32000, message: 'Method not allowed.' }, id: null }); });
  \<close>
\<close>

type_synonym route = "verb \<times> string \<times> (request \<Rightarrow> response)"

definition createApp :: "(request \<Rightarrow> error + response) \<Rightarrow> route list" where
  "createApp transport =
     [(POST, ''/mcp'',
         \<lambda>req. case transport req of
                  Inr reply \<Rightarrow> reply
                | Inl e \<Rightarrow> \<lparr>status = 500, body = JsonRpcError (- 32603) ''Internal server error''\<rparr>),
      (GET, ''/health'',
         \<lambda>req. \<lparr>status = 200, body = HealthStatus ''ok'' ''boilerplate-context-mcp''\<rparr>),
      (GET, ''/mcp'',
         \<lambda>req. \<lparr>status = 405, body = JsonRpcError (- 32000) ''Method not allowed. Use POST.''\<rparr>),
      (DELETE, ''/mcp'',
         \<lambda>req. \<lparr>status = 405, body = JsonRpcError (- 32000) ''Method not allowed.''\<rparr>)]"

text \<open>What the framework answers when no registered route matches the verb and the
  path of a request.\<close>

definition express_not_found :: response where
  "express_not_found = \<lparr>status = 404, body = NotFoundPage\<rparr>"

fun dispatch :: "route list \<Rightarrow> request \<Rightarrow> response" where
  "dispatch [] req = express_not_found"
| "dispatch ((v, p, handler) # routes) req =
     (if req_method req = v \<and> req_path req = p then handler req else dispatch routes req)"

definition handle_request :: "(request \<Rightarrow> error + response) \<Rightarrow> request \<Rightarrow> response" where
  "handle_request transport req = dispatch (createApp transport) req"

fun error_code :: "body \<Rightarrow> int option" where
  "error_code (JsonRpcError code message) = Some code"
| "error_code (HealthStatus st service) = None"
| "error_code (TransportReply t) = None"
| "error_code NotFoundPage = None"

section \<open>Concurrent calls of ensureRepo\<close>

text \<open>
  \<open>repoTools\<close> creates one \<open>simple-git\<close> instance, \<open>git\<close>, with
  \<open>maxConcurrentProcesses: 1\<close>, and \<open>ensureRepo\<close> clones through it. A pull goes through
  \<open>simpleGit(dir)\<close>, an instance made for that call, whose scheduler holds no other task,
  so the pull starts at once. Each call of \<open>ensureRepo\<close> in flight is at one
  of these points:
\<close>

datatype pc = Entered | CloneQueued | CloneRunning | PullRunning | Returned

record server =
  dirExists :: bool
  inFlight :: "pc list"

definition maxConcurrentProcesses :: nat where
  "maxConcurrentProcesses = 1"

definition clones_running :: "server \<Rightarrow> nat" where
  "clones_running s = length (filter (\<lambda>p. p = CloneRunning) (inFlight s))"

definition git_running :: "server \<Rightarrow> nat" where
  "git_running s = length (filter (\<lambda>p. p = CloneRunning \<or> p = PullRunning) (inFlight s))"

text \<open>The event loop lets call \<open>i\<close> take its next step: \<open>fs.access\<close> settles and the
  git task is handed over, a queued clone is started when the scheduler of \<open>git\<close> has
  room, a running process ends.\<close>

definition step :: "server \<Rightarrow> nat \<Rightarrow> server" where
  "step s i =
     (if i < length (inFlight s) then
        (case inFlight s ! i of
           Entered \<Rightarrow>
             (if dirExists s then s\<lparr>inFlight := (inFlight s)[i := PullRunning]\<rparr>
              else s\<lparr>inFlight := (inFlight s)[i := CloneQueued]\<rparr>)
         | CloneQueued \<Rightarrow>
             (if clones_running s < maxConcurrentProcesses
              then s\<lparr>inFlight := (inFlight s)[i := CloneRunning]\<rparr>
              else s)
         | CloneRunning \<Rightarrow> s\<lparr>dirExists := True, inFlight := (inFlight s)[i := Returned]\<rparr>
         | PullRunning \<Rightarrow> s\<lparr>inFlight := (inFlight s)[i := Returned]\<rparr>
         | Returned \<Rightarrow> s)
      else s)"

definition run :: "server \<Rightarrow> nat list \<Rightarrow> server" where
  "run s schedule = foldl step s schedule"

section \<open>Properties of the search\<close>

lemma startsWith_iff: "startsWith s p \<longleftrightarrow> (\<exists>ss. s = p @ ss)"
  by (induction s p rule: startsWith.induct) auto

lemma includes_str_iff: "includes_str s q \<longleftrightarrow> (\<exists>ps ss. s = ps @ q @ ss)"
proof (induction s)
  case Nil
  then show ?case by auto
next
  case (Cons c cs)
  show ?case
  proof
    assume "includes_str (c # cs) q"
    then consider "startsWith (c # cs) q" | "includes_str cs q" by auto
    then show "\<exists>ps ss. c # cs = ps @ q @ ss"
    proof cases
      case 1
      then obtain ss where "c # cs = q @ ss" by (auto simp: startsWith_iff)
      then have "c # cs = [] @ q @ ss" by simp
      then show ?thesis by blast
    next
      case 2
      then obtain ps ss where "cs = ps @ q @ ss" using Cons.IH by auto
      then have "c # cs = (c # ps) @ q @ ss" by simp
      then show ?thesis by blast
    qed
  next
    assume "\<exists>ps ss. c # cs = ps @ q @ ss"
    then obtain ps ss where eq: "c # cs = ps @ q @ ss" by auto
    show "includes_str (c # cs) q"
    proof (cases ps)
      case Nil
      then have "startsWith (c # cs) q" using eq by (auto simp: startsWith_iff)
      then show ?thesis by simp
    next
      case (Cons p ps')
      then have "cs = ps' @ q @ ss" using eq by simp
      then have "includes_str cs q" using Cons.IH by auto
      then show ?thesis by simp
    qed
  qed
qed

lemma forEach_line_eq:
  "forEach_line nl lower lines ql rest k acc =
     acc @ map (match_at nl lines)
             (filter (\<lambda>i. includes_str (lower (rest ! (i - k))) ql) [k..<k + length rest])"
proof (induction rest arbitrary: k acc)
  case Nil
  then show ?case by simp
next
  case (Cons line rest)
  have up: "[k..<k + length (line # rest)] = k # [Suc k..<Suc k + length rest]"
    by (simp add: upt_rec)
  have f: "filter (\<lambda>i. includes_str (lower ((line # rest) ! (i - k))) ql) [Suc k..<Suc k + length rest]
         = filter (\<lambda>i. includes_str (lower (rest ! (i - Suc k))) ql) [Suc k..<Suc k + length rest]"
  proof (rule filter_cong)
    fix i assume "i \<in> set [Suc k..<Suc k + length rest]"
    then have "i - k = Suc (i - Suc k)" by auto
    then show "includes_str (lower ((line # rest) ! (i - k))) ql
             = includes_str (lower (rest ! (i - Suc k))) ql" by simp
  qed simp
  show ?case
    unfolding up using f by (simp add: Cons.IH)
qed


lemma search_eq:
  "search nl lower content query =
     map (match_at nl (split_str nl content))
       (filter (\<lambda>i. includes_str (lower (split_str nl content ! i)) (lower query))
          [0..<length (split_str nl content)])"
  by (simp add: search_def Let_def forEach_line_eq)

lemma take_drop_nth: "b \<le> length xs \<Longrightarrow> take (b - a) (drop a xs) = map ((!) xs) [a..<b]"
  by (rule nth_equalityI) auto

lemma slice_nat:
  assumes "a \<le> length xs" and "b \<le> length xs"
  shows "slice xs (int a) (int b) = take (b - a) (drop a xs)"
proof -
  have "nat (int b - int a) = b - a" by simp
  moreover have "min (int a) (int (length xs)) = int a" using assms by simp
  moreover have "min (int b) (int (length xs)) = int b" using assms by simp
  ultimately show ?thesis by (simp add: slice_def Let_def)
qed

lemma slice_window:
  assumes "i < length xs"
  shows "slice xs (max 0 (int i - 2)) (min (int (length xs)) (int i + 3))
           = map ((!) xs) [i - 2..<min (length xs) (i + 3)]"
proof -
  let ?n = "length xs"
  have s: "max 0 (int i - 2) = int (i - 2)" by auto
  have e: "min (int ?n) (int i + 3) = int (min ?n (i + 3))" by auto
  have "slice xs (int (i - 2)) (int (min ?n (i + 3)))
          = take (min ?n (i + 3) - (i - 2)) (drop (i - 2) xs)"
    using assms by (intro slice_nat) auto
  also have "\<dots> = map ((!) xs) [i - 2..<min ?n (i + 3)]"
    by (rule take_drop_nth) simp
  finally show ?thesis by (simp only: s e)
qed

lemma match_at_eq:
  "i < length lines \<Longrightarrow>
     match_at nl lines i =
       \<lparr>lineNumber = i + 1,
        contextBlock = join [nl] (map ((!) lines) [i - 2..<min (length lines) (i + 3)])\<rparr>"
  by (simp only: match_at_def Let_def slice_window)

lemma lineNumber_match_at: "lineNumber (match_at nl lines i) = i + 1"
  by (simp add: match_at_def Let_def)

lemma sorted_lineNumbers:
  "sorted_wrt (<) (map lineNumber (map (match_at nl lines) (filter P [0..<n])))"
proof -
  have "map lineNumber (map (match_at nl lines) (filter P [0..<n])) = map Suc (filter P [0..<n])"
    by (simp add: lineNumber_match_at comp_def)
  moreover have "sorted_wrt (<) (map Suc (filter P [0..<n]))"
    by (simp add: sorted_wrt_map sorted_wrt_filter)
  ultimately show ?thesis by (simp only:)
qed

lemma includes_empty: "includes_str s []"
  by (induction s) auto

lemma toLowerCase_Nil: "toLowerCase unicode [] = []"
  by (simp add: toLowerCase_def is_ascii_def)

lemma search_empty_query:
  assumes "lower query = []"
  shows "map lineNumber (search nl lower content query) = [1..<length (split_str nl content) + 1]"
proof -
  have "map lineNumber (search nl lower content query) = map Suc [0..<length (split_str nl content)]"
    by (simp add: search_eq assms includes_empty lineNumber_match_at comp_def)
  then show ?thesis by (simp add: map_Suc_upt)
qed

text \<open>
  Claim C3. For every document and every query, over any type of code units and
  whatever \<open>toLowerCase\<close> does, \<open>search\<close> returns one result for each line (of the
  document split at newlines) whose lower-cased form contains the lower-cased query as a
  contiguous substring, in the order of the lines. The result for the line at index \<open>i\<close>
  carries the line number \<open>i + 1\<close> and, joined by newlines, the lines at the indices from
  \<open>i - 2\<close> (not below the first line) up to \<open>i + 2\<close> (not beyond the last line); the
  result of one line does not depend on the other matches. The line numbers are
  strictly ascending. A query whose lower-cased form is empty gives one result for
  every line; with the \<open>toLowerCase\<close> of the runtime the empty query is such a query.
\<close>

theorem search_reports_matching_lines:
  "search nl lower content query =
     map (\<lambda>i. \<lparr>lineNumber = i + 1,
               contextBlock = join [nl]
                 (map ((!) (split_str nl content))
                    [i - 2..<min (length (split_str nl content)) (i + 3)])\<rparr>)
       (filter (\<lambda>i. \<exists>ps ss. lower (split_str nl content ! i) = ps @ lower query @ ss)
          [0..<length (split_str nl content)])
   \<and> sorted_wrt (<) (map lineNumber (search nl lower content query))
   \<and> (lower query = [] \<longrightarrow>
        map lineNumber (search nl lower content query) = [1..<length (split_str nl content) + 1])
   \<and> map lineNumber (search newline (toLowerCase unicode) doc [])
       = [1..<length (split_lines doc) + 1]"
proof (intro conjI impI)
  let ?lines = "split_str nl content"
  let ?P = "\<lambda>i. \<exists>ps ss. lower (?lines ! i) = ps @ lower query @ ss"
  have "search nl lower content query = map (match_at nl ?lines) (filter ?P [0..<length ?lines])"
    by (simp add: search_eq includes_str_iff)
  also have "\<dots> = map (\<lambda>i. \<lparr>lineNumber = i + 1,
               contextBlock = join [nl]
                 (map ((!) ?lines) [i - 2..<min (length ?lines) (i + 3)])\<rparr>)
       (filter ?P [0..<length ?lines])"
    by (rule map_cong) (auto simp: match_at_eq)
  finally show "search nl lower content query = map (\<lambda>i. \<lparr>lineNumber = i + 1,
               contextBlock = join [nl]
                 (map ((!) ?lines) [i - 2..<min (length ?lines) (i + 3)])\<rparr>)
       (filter ?P [0..<length ?lines])" .
  show "sorted_wrt (<) (map lineNumber (search nl lower content query))"
    by (simp only: search_eq sorted_lineNumbers)
  show "map lineNumber (search nl lower content query) = [1..<length ?lines + 1]"
    if "lower query = []"
    using that by (rule search_empty_query)
  show "map lineNumber (search newline (toLowerCase unicode) doc [])
          = [1..<length (split_lines doc) + 1]"
    by (simp add: search_empty_query toLowerCase_Nil split_lines_def)
qed

text \<open>
  The same on a document of three lines, of which the first and the last match, and on
  a document that is the one letter \<open>U+00C9\<close> with the query \<open>U+00E9\<close>, its lower-case
  form in the case tables.
\<close>

theorem search_reports_matching_lines_witness:
  "search newline (toLowerCase (\<lambda>s. s)) ''Ab\<newline>c\<newline>xB'' ''b'' =
     [\<lparr>lineNumber = 1, contextBlock = ''Ab\<newline>c\<newline>xB''\<rparr>,
      \<lparr>lineNumber = 3, contextBlock = ''Ab\<newline>c\<newline>xB''\<rparr>]
   \<and> sorted_wrt (<) (map lineNumber (search newline (toLowerCase (\<lambda>s. s)) ''Ab\<newline>c\<newline>xB'' ''b''))
   \<and> toLowerCase (\<lambda>s. s) [] = []
   \<and> map lineNumber (search newline (toLowerCase (\<lambda>s. s)) ''Ab\<newline>c\<newline>xB'' []) = [1, 2, 3]
   \<and> search newline (toLowerCase (map (\<lambda>c. if c = CHR 0xC9 then CHR 0xE9 else c)))
        [CHR 0xC9] [CHR 0xE9]
       = [\<lparr>lineNumber = 1, contextBlock = [CHR 0xC9]\<rparr>]"
proof (intro conjI)
  show "search newline (toLowerCase (\<lambda>s. s)) ''Ab\<newline>c\<newline>xB'' ''b'' =
     [\<lparr>lineNumber = 1, contextBlock = ''Ab\<newline>c\<newline>xB''\<rparr>,
      \<lparr>lineNumber = 3, contextBlock = ''Ab\<newline>c\<newline>xB''\<rparr>]"
    by code_simp
  show "sorted_wrt (<) (map lineNumber (search newline (toLowerCase (\<lambda>s. s)) ''Ab\<newline>c\<newline>xB'' ''b''))"
    using search_reports_matching_lines
            [of newline "toLowerCase (\<lambda>s. s)" "''Ab\<newline>c\<newline>xB''" "''b''"]
    by blast
  show "toLowerCase (\<lambda>s. s) [] = []"
    by code_simp
  show "map lineNumber (search newline (toLowerCase (\<lambda>s. s)) ''Ab\<newline>c\<newline>xB'' []) = [1, 2, 3]"
    by code_simp
  show "search newline (toLowerCase (map (\<lambda>c. if c = CHR 0xC9 then CHR 0xE9 else c)))
        [CHR 0xC9] [CHR 0xE9]
       = [\<lparr>lineNumber = 1, contextBlock = [CHR 0xC9]\<rparr>]"
    by code_simp
qed

text \<open>
  Claim C4, as amended. The document \<open>alpha\<newline>beta\<newline>GAMMA\<newline>delta\<newline>\<close> splits into
  five lines, the fifth being the empty text after the last newline. For the query
  \<open>gamma\<close>, \<open>search\<close> returns exactly one match, at line 3, and its context block is the
  lines 1 to 5 joined in order: it ends with the newline that precedes the empty fifth
  line.
\<close>

theorem search_example:
  "search newline (toLowerCase unicode) ''alpha\<newline>beta\<newline>GAMMA\<newline>delta\<newline>'' ''gamma'' =
     [\<lparr>lineNumber = 3,
       contextBlock = join [newline] [''alpha'', ''beta'', ''GAMMA'', ''delta'', []]\<rparr>]
   \<and> split_lines ''alpha\<newline>beta\<newline>GAMMA\<newline>delta\<newline>''
       = [''alpha'', ''beta'', ''GAMMA'', ''delta'', []]"
  by code_simp

text \<open>Claim C4 as stated fails: the context block of the match is not the lines 1 to 4
  joined in order.\<close>

theorem search_example_counterexample:
  "contextBlock (hd (search newline (toLowerCase (\<lambda>s. s))
                       ''alpha\<newline>beta\<newline>GAMMA\<newline>delta\<newline>'' ''gamma''))
     \<noteq> join [newline] [''alpha'', ''beta'', ''GAMMA'', ''delta'']"
  by code_simp

lemma split_str_not_Nil: "split_str sep s \<noteq> []"
  by (induction s) (auto split: list.splits)

lemma split_str_append: "split_str sep (a @ sep # b) = split_str sep a @ split_str sep b"
proof (induction a)
  case Nil
  then show ?case by simp
next
  case (Cons c cs)
  then show ?case
    using split_str_not_Nil [of sep cs] by (auto split: list.splits)
qed

lemma split_lines_snoc_newline: "split_lines (s @ [newline]) = split_lines s @ [[]]"
  by (simp add: split_lines_def split_str_append)

lemma window_to_end:
  assumes "i < length lines" and "length lines \<le> i + 3"
  shows "contextBlock (match_at nl lines i) = join [nl] (drop (i - 2) lines)"
proof -
  have "min (length lines) (i + 3) = length lines" using assms by simp
  then have "map ((!) lines) [i - 2..<min (length lines) (i + 3)] = drop (i - 2) lines"
    using take_drop_nth [of "length lines" lines "i - 2"] by simp
  then show ?thesis using assms(1) by (simp add: match_at_eq)
qed

lemma search_member:
  assumes "m \<in> set (search nl lower content query)"
  shows "\<exists>i < length (split_str nl content). m = match_at nl (split_str nl content) i"
  using assms by (auto simp: search_eq)

text \<open>
  Claim C10. A document that ends with a newline splits into the lines before that
  newline and one further, empty line. That line has a line number of its own (one more
  than the number of the lines before it), the empty query reports it, and every match
  whose window reaches the end of the lines has it as the last line of its context
  block.
\<close>

theorem trailing_newline_is_a_line:
  "split_lines (doc @ [newline]) = split_lines doc @ [[]]
   \<and> map lineNumber (search newline (toLowerCase unicode) (doc @ [newline]) [])
       = [1..<length (split_lines doc) + 2]
   \<and> (\<forall>m \<in> set (search newline (toLowerCase unicode) (doc @ [newline]) query).
         length (split_lines doc) + 1 \<le> lineNumber m + 2 \<longrightarrow>
         contextBlock m = join [newline] (drop (lineNumber m - 3) (split_lines doc) @ [[]]))"
proof (intro conjI ballI impI)
  let ?lines = "split_lines (doc @ [newline])"
  have lines: "?lines = split_lines doc @ [[]]" by (rule split_lines_snoc_newline)
  show "?lines = split_lines doc @ [[]]" by (rule lines)
  have "map lineNumber (search newline (toLowerCase unicode) (doc @ [newline]) [])
          = [1..<length ?lines + 1]"
    by (simp add: search_empty_query toLowerCase_Nil split_lines_def)
  then show "map lineNumber (search newline (toLowerCase unicode) (doc @ [newline]) [])
          = [1..<length (split_lines doc) + 2]"
    by (simp add: lines)
  fix m
  assume m: "m \<in> set (search newline (toLowerCase unicode) (doc @ [newline]) query)"
    and reach: "length (split_lines doc) + 1 \<le> lineNumber m + 2"
  from search_member [OF m] obtain i
    where i: "i < length ?lines" and mi: "m = match_at newline ?lines i"
    by (auto simp: split_lines_def)
  have num: "lineNumber m = i + 1" by (simp add: mi lineNumber_match_at)
  have "length ?lines \<le> i + 3" using reach num by (simp add: lines)
  then have "contextBlock m = join [newline] (drop (i - 2) ?lines)"
    using i mi window_to_end by simp
  also have "drop (i - 2) ?lines = drop (i - 2) (split_lines doc) @ [[]]"
    using i by (simp add: lines)
  finally show "contextBlock m = join [newline] (drop (lineNumber m - 3) (split_lines doc) @ [[]])"
    by (simp add: num)
qed

text \<open>The same on the document \<open>a\<newline>b\<newline>\<close>, whose second line matches \<open>b\<close>.\<close>

theorem trailing_newline_is_a_line_witness:
  "split_lines ''a\<newline>b\<newline>'' = [''a'', ''b'', []]
   \<and> map lineNumber (search newline (toLowerCase (\<lambda>s. s)) ''a\<newline>b\<newline>'' []) = [1, 2, 3]
   \<and> \<lparr>lineNumber = 2, contextBlock = ''a\<newline>b\<newline>''\<rparr>
       \<in> set (search newline (toLowerCase (\<lambda>s. s)) (''a\<newline>b'' @ [newline]) ''b'')
   \<and> length (split_lines ''a\<newline>b'') + 1 \<le> lineNumber \<lparr>lineNumber = 2, contextBlock = ''a\<newline>b\<newline>''\<rparr> + 2
   \<and> contextBlock \<lparr>lineNumber = 2, contextBlock = ''a\<newline>b\<newline>''\<rparr>
       = join [newline] (drop (2 - 3) (split_lines ''a\<newline>b'') @ [[]])"
proof -
  let ?m = "\<lparr>lineNumber = 2, contextBlock = ''a\<newline>b\<newline>''\<rparr>"
  have m: "?m \<in> set (search newline (toLowerCase (\<lambda>s. s)) (''a\<newline>b'' @ [newline]) ''b'')"
    by code_simp
  have reach: "length (split_lines ''a\<newline>b'') + 1 \<le> lineNumber ?m + 2" by code_simp
  from trailing_newline_is_a_line [of "''a\<newline>b''" "\<lambda>s. s" "''b''"] m reach
  have "contextBlock ?m = join [newline] (drop (lineNumber ?m - 3) (split_lines ''a\<newline>b'') @ [[]])"
    by blast
  then have c: "contextBlock ?m = join [newline] (drop (2 - 3) (split_lines ''a\<newline>b'') @ [[]])"
    by simp
  have s: "split_lines ''a\<newline>b\<newline>'' = [''a'', ''b'', []]" by code_simp
  have e: "map lineNumber (search newline (toLowerCase (\<lambda>s. s)) ''a\<newline>b\<newline>'' []) = [1, 2, 3]"
    by code_simp
  from s e m reach c show ?thesis by (intro conjI)
qed

section \<open>Properties of the repository tools and the handlers\<close>

lemma repoDir_record_call: "repoDir (record_call c w) = repoDir w"
  by (simp add: record_call_def)

lemma calls_record_call: "calls (record_call c w) = calls w @ [c]"
  by (simp add: record_call_def)

lemma readFile_agents_record_call: "readFile_agents (record_call c w) p = readFile_agents w p"
  by (simp add: readFile_agents_def repoDir_record_call)

lemma readdir_platform_record_call: "readdir_platform (record_call c w) p = readdir_platform w p"
  by (simp add: readdir_platform_def repoDir_record_call)

lemma readAgentsMd_world: "snd (readAgentsMd w p) = record_call (CallReadAgentsMd p) w"
  by (simp add: readAgentsMd_def Let_def split: sum.splits)

lemma readAgentsMd_result:
  "fst (readAgentsMd w p) =
     (case readFile_agents w p of
        Inl e \<Rightarrow> Inl (Error (''Failed to read AGENTS.md for '' @ platform_value p @ '': ''
                             @ error_to_string e))
      | Inr content \<Rightarrow> Inr content)"
  by (simp add: readAgentsMd_def Let_def readFile_agents_record_call split: sum.splits)

lemma getDirectoryStructure_world:
  "snd (getDirectoryStructure w p) = record_call (CallGetDirectoryStructure p) w"
  by (simp add: getDirectoryStructure_def Let_def split: sum.splits)

lemma ensureRepo_calls: "calls (snd (ensureRepo r w)) = calls w @ [CallEnsureRepo]"
  by (simp add: ensureRepo_def Let_def console_write_def record_call_def
      split: prod.splits option.splits)

lemma search_best_practices_world:
  "snd (search_best_practices unicode w p q) = record_call (CallReadAgentsMd p) w"
proof (cases "readAgentsMd w p")
  case (Pair res w1)
  then have "w1 = record_call (CallReadAgentsMd p) w"
    using readAgentsMd_world [of w p] by simp
  then show ?thesis using Pair by (simp add: search_best_practices_def Let_def split: sum.splits)
qed

lemma get_boilerplate_structure_world:
  "snd (get_boilerplate_structure w p) = record_call (CallGetDirectoryStructure p) w"
proof (cases "getDirectoryStructure w p")
  case (Pair res w1)
  then have "w1 = record_call (CallGetDirectoryStructure p) w"
    using getDirectoryStructure_world [of w p] by simp
  then show ?thesis using Pair by (simp add: get_boilerplate_structure_def split: sum.splits)
qed

lemma map_platforms_calls:
  "calls (snd (map_platforms w ps)) = calls w @ map CallReadAgentsMd ps"
proof (induction ps arbitrary: w)
  case Nil
  then show ?case by simp
next
  case (Cons p ps)
  obtain res w1 where r: "readAgentsMd w p = (res, w1)" by (cases "readAgentsMd w p")
  then have w1: "w1 = record_call (CallReadAgentsMd p) w"
    using readAgentsMd_world [of w p] by simp
  obtain rs w2 where m: "map_platforms w1 ps = (rs, w2)" by (cases "map_platforms w1 ps")
  have "calls w2 = calls w1 @ map CallReadAgentsMd ps" using Cons.IH [of w1] m by simp
  then show ?case using r m w1 by (simp add: calls_record_call)
qed

lemma get_all_contexts_calls:
  "calls (snd (get_all_contexts w)) = calls w @ map CallReadAgentsMd config_platforms"
proof -
  obtain rs w1 where m: "map_platforms w config_platforms = (rs, w1)"
    by (cases "map_platforms w config_platforms")
  then have "calls w1 = calls w @ map CallReadAgentsMd config_platforms"
    using map_platforms_calls [of w config_platforms] by simp
  then show ?thesis using m by (simp add: get_all_contexts_def split: sum.splits)
qed

lemma map_platforms_results:
  "fst (map_platforms w ps) =
     map (\<lambda>p. case fst (readAgentsMd w p) of
                 Inl e \<Rightarrow> Inl e
               | Inr content \<Rightarrow> Inr (context_heading p @ content)) ps"
proof (induction ps arbitrary: w)
  case Nil
  then show ?case by simp
next
  case (Cons p ps)
  obtain res w1 where r: "readAgentsMd w p = (res, w1)" by (cases "readAgentsMd w p")
  then have w1: "w1 = record_call (CallReadAgentsMd p) w"
    using readAgentsMd_world [of w p] by simp
  obtain rs w2 where m: "map_platforms w1 ps = (rs, w2)" by (cases "map_platforms w1 ps")
  have same: "fst (readAgentsMd w1 q) = fst (readAgentsMd w q)" for q
    by (simp add: readAgentsMd_result w1 readFile_agents_record_call)
  have "rs = map (\<lambda>p. case fst (readAgentsMd w p) of
                 Inl e \<Rightarrow> Inl e
               | Inr content \<Rightarrow> Inr (context_heading p @ content)) ps"
    using Cons.IH [of w1] m by (simp add: same)
  then show ?case using r m by simp
qed

lemma Promise_all_Inr: "Promise_all (map Inr xs) = Inr xs"
  by (induction xs) auto

lemma Promise_all_Inl: "Inl e \<in> set rs \<Longrightarrow> \<exists>e'. Promise_all rs = Inl e'"
proof (induction rs)
  case Nil
  then show ?case by simp
next
  case (Cons a rs)
  show ?case
  proof (cases a)
    case (Inl e0)
    then show ?thesis by simp
  next
    case (Inr x)
    then have "Inl e \<in> set rs" using Cons.prems by auto
    then obtain e' where "Promise_all rs = Inl e'" using Cons.IH by blast
    then show ?thesis using Inr by simp
  qed
qed


lemma get_all_contexts_result:
  "fst (get_all_contexts w) =
     (case Promise_all (fst (map_platforms w config_platforms)) of
        Inl e \<Rightarrow> Inl e
      | Inr contexts \<Rightarrow> Inr (join context_separator contexts))"
  by (cases "map_platforms w config_platforms") (simp add: get_all_contexts_def split: sum.splits)

text \<open>
  Claim C1, as amended. When the local directory exists and the pull fails with an
  error, \<open>ensureRepo\<close> writes \<open>Pulling repository...\<close> and then the error to the console and
  throws that same error again: the call fails. The directory is left as the pull left
  it, and nothing else of the world changes but the record of the call; so when the
  failed pull did not touch the directory, the guideline documents read as before.
\<close>

theorem ensureRepo_rethrows_pull_failure:
  assumes "repoDir w = Some wc" and "git_pull r (Some wc) = (Some e, dir')"
  shows "ensureRepo r w =
           (Inl e,
            w\<lparr>repoDir := dir',
              console := console w @ [(LOG, ''Pulling repository...''),
                                      (ERROR, ''Error managing repository: '' @ error_to_string e)],
              calls := calls w @ [CallEnsureRepo]\<rparr>)
         \<and> (dir' = Some wc \<longrightarrow>
              readFile_agents (snd (ensureRepo r w)) platform = readFile_agents w platform)"
proof -
  have eq: "ensureRepo r w =
           (Inl e,
            w\<lparr>repoDir := dir',
              console := console w @ [(LOG, ''Pulling repository...''),
                                      (ERROR, ''Error managing repository: '' @ error_to_string e)],
              calls := calls w @ [CallEnsureRepo]\<rparr>)"
    using assms by (simp add: ensureRepo_def Let_def console_write_def record_call_def)
  have "dir' = Some wc \<longrightarrow>
          readFile_agents (snd (ensureRepo r w)) platform = readFile_agents w platform"
    using assms(1) by (simp add: eq readFile_agents_def)
  with eq show ?thesis by (rule conjI)
qed

text \<open>A working copy that exists, and a remote that cannot be reached.\<close>

theorem ensureRepo_rethrows_pull_failure_witness:
  "repoDir \<lparr>repoDir = Some (\<lambda>p. Some [FileEnt ''AGENTS.md'' ''# Guide'']), console = [], calls = []\<rparr>
     = Some (\<lambda>p. Some [FileEnt ''AGENTS.md'' ''# Guide''])
   \<and> git_pull \<lparr>git_clone = \<lambda>d. (None, d), git_pull = \<lambda>d. (Some (Error ''network unreachable''), d)\<rparr>
         (Some (\<lambda>p. Some [FileEnt ''AGENTS.md'' ''# Guide'']))
       = (Some (Error ''network unreachable''), Some (\<lambda>p. Some [FileEnt ''AGENTS.md'' ''# Guide'']))
   \<and> ensureRepo \<lparr>git_clone = \<lambda>d. (None, d), git_pull = \<lambda>d. (Some (Error ''network unreachable''), d)\<rparr>
         \<lparr>repoDir = Some (\<lambda>p. Some [FileEnt ''AGENTS.md'' ''# Guide'']), console = [], calls = []\<rparr>
       = (Inl (Error ''network unreachable''),
          \<lparr>repoDir = Some (\<lambda>p. Some [FileEnt ''AGENTS.md'' ''# Guide'']),
           console = [(LOG, ''Pulling repository...''),
                      (ERROR, ''Error managing repository: Error: network unreachable'')],
           calls = [CallEnsureRepo]\<rparr>)"
proof -
  let ?wc = "\<lambda>p::PLATFORMS. Some [FileEnt ''AGENTS.md'' ''# Guide'']"
  let ?w = "\<lparr>repoDir = Some ?wc, console = [], calls = []\<rparr>"
  let ?r = "\<lparr>git_clone = \<lambda>d. (None, d), git_pull = \<lambda>d. (Some (Error ''network unreachable''), d)\<rparr>"
  have h1: "repoDir ?w = Some ?wc" by simp
  have h2: "git_pull ?r (Some ?wc) = (Some (Error ''network unreachable''), Some ?wc)" by simp
  from ensureRepo_rethrows_pull_failure [OF h1 h2, of BACKEND] h1 h2
  show ?thesis by (simp add: error_to_string_def)
qed

text \<open>Claim C1 as stated fails: with the directory present and a failing pull,
  \<open>ensureRepo\<close> does not return successfully.\<close>

theorem ensureRepo_pull_failure_counterexample:
  "fst (ensureRepo \<lparr>git_clone = \<lambda>d. (None, d), git_pull = \<lambda>d. (Some (Error ''network unreachable''), d)\<rparr>
         \<lparr>repoDir = Some (\<lambda>p. Some [FileEnt ''AGENTS.md'' ''# Guide'']), console = [], calls = []\<rparr>)
     \<noteq> Inr ()"
  by (simp add: ensureRepo_def Let_def console_write_def record_call_def)

text \<open>
  Claim C2. The claim is that every operation calls \<open>ensureRepo\<close> before it reads from
  the repository. The read callback of a resource does (its first call is
  \<open>ensureRepo\<close>), but the three tools do not: from any world, \<open>get_boilerplate_structure\<close>
  only calls \<open>getDirectoryStructure\<close>, \<open>search_best_practices\<close> only calls
  \<open>readAgentsMd\<close>, and \<open>get_all_contexts\<close> only calls \<open>readAgentsMd\<close>, once for each platform.
\<close>

theorem tools_read_without_ensureRepo:
  "calls (snd (get_boilerplate_structure w platform)) = calls w @ [CallGetDirectoryStructure platform]
   \<and> calls (snd (search_best_practices unicode w platform query)) = calls w @ [CallReadAgentsMd platform]
   \<and> calls (snd (get_all_contexts w))
       = calls w @ [CallReadAgentsMd BACKEND, CallReadAgentsMd FRONTEND, CallReadAgentsMd MOBILE]
   \<and> take (length (calls w) + 1) (calls (snd (read_resource r w platform))) = calls w @ [CallEnsureRepo]"
proof (intro conjI)
  show "calls (snd (get_boilerplate_structure w platform)) = calls w @ [CallGetDirectoryStructure platform]"
    by (simp add: get_boilerplate_structure_world calls_record_call)
  show "calls (snd (search_best_practices unicode w platform query)) = calls w @ [CallReadAgentsMd platform]"
    by (simp add: search_best_practices_world calls_record_call)
  show "calls (snd (get_all_contexts w))
       = calls w @ [CallReadAgentsMd BACKEND, CallReadAgentsMd FRONTEND, CallReadAgentsMd MOBILE]"
    by (simp add: get_all_contexts_calls config_platforms_def)
  show "take (length (calls w) + 1) (calls (snd (read_resource r w platform))) = calls w @ [CallEnsureRepo]"
  proof (cases "ensureRepo r w")
    case (Pair res w1)
    then have c1: "calls w1 = calls w @ [CallEnsureRepo]" using ensureRepo_calls [of r w] by simp
    show ?thesis
    proof (cases res)
      case (Inl e)
      then show ?thesis using Pair c1 by (simp add: read_resource_def)
    next
      case (Inr u)
      obtain res2 w2 where r2: "readAgentsMd w1 platform = (res2, w2)"
        by (cases "readAgentsMd w1 platform")
      then have "w2 = record_call (CallReadAgentsMd platform) w1"
        using readAgentsMd_world [of w1 platform] by simp
      then have "calls w2 = calls w @ [CallEnsureRepo, CallReadAgentsMd platform]"
        using c1 by (simp add: calls_record_call)
      then show ?thesis using Pair Inr r2 by (simp add: read_resource_def split: sum.splits)
    qed
  qed
qed

text \<open>
  Claim C6. When reading the guideline file of a platform fails with an error \<open>e\<close> (the
  file is missing, or it cannot be read), \<open>readAgentsMd\<close> fails with a new error whose
  message names the platform and embeds \<open>e\<close>; it returns no text. The error reaches the
  caller of every operation that reads the document: \<open>search_best_practices\<close> and the
  resource read fail with that same error, and \<open>get_all_contexts\<close> fails.
\<close>

theorem readAgentsMd_failure_surfaces:
  assumes "readFile_agents w platform = Inl e"
  shows "fst (readAgentsMd w platform)
           = Inl (Error (''Failed to read AGENTS.md for '' @ platform_value platform @ '': ''
                           @ error_to_string e))
         \<and> fst (search_best_practices unicode w platform query)
             = Inl (Error (''Failed to read AGENTS.md for '' @ platform_value platform @ '': ''
                             @ error_to_string e))
         \<and> (\<exists>e'. fst (get_all_contexts w) = Inl e')
         \<and> (\<forall>u w0. ensureRepo r w0 = (Inr u, w) \<longrightarrow>
               fst (read_resource r w0 platform)
                 = Inl (Error (''Failed to read AGENTS.md for '' @ platform_value platform @ '': ''
                                 @ error_to_string e)))"
proof (intro conjI allI impI)
  let ?err = "Error (''Failed to read AGENTS.md for '' @ platform_value platform @ '': ''
                           @ error_to_string e)"
  show r: "fst (readAgentsMd w platform) = Inl ?err"
    using assms by (simp add: readAgentsMd_result)
  obtain w1 where rw: "readAgentsMd w platform = (Inl ?err, w1)"
    using r by (cases "readAgentsMd w platform") simp
  show "fst (search_best_practices unicode w platform query) = Inl ?err"
    using rw by (simp add: search_best_practices_def)
  have "platform \<in> set config_platforms"
    by (cases platform) (simp_all add: config_platforms_def)
  then have "Inl ?err \<in> set (fst (map_platforms w config_platforms))"
    using r by (force simp: map_platforms_results)
  then obtain e' where "Promise_all (fst (map_platforms w config_platforms)) = Inl e'"
    using Promise_all_Inl by blast
  then have "fst (get_all_contexts w) = Inl e'"
    by (simp add: get_all_contexts_result)
  then show "\<exists>e'. fst (get_all_contexts w) = Inl e'" by blast
  fix u w0
  assume "ensureRepo r w0 = (Inr u, w)"
  then show "fst (read_resource r w0 platform) = Inl ?err"
    using rw by (simp add: read_resource_def)
qed


text \<open>A backend directory that holds a \<open>README.md\<close> and no \<open>AGENTS.md\<close>.\<close>

theorem readAgentsMd_failure_surfaces_witness:
  "readFile_agents
     \<lparr>repoDir = Some (\<lambda>p. Some [FileEnt ''README.md'' ''hello'']),
      console = [(LOG, ''Pulling repository...'')], calls = [CallEnsureRepo]\<rparr> BACKEND
     = Inl (Error ''ENOENT: no such file or directory, open'')
   \<and> fst (readAgentsMd
        \<lparr>repoDir = Some (\<lambda>p. Some [FileEnt ''README.md'' ''hello'']),
         console = [(LOG, ''Pulling repository...'')], calls = [CallEnsureRepo]\<rparr> BACKEND)
     = Inl (Error ''Failed to read AGENTS.md for backend: Error: ENOENT: no such file or directory, open'')
   \<and> fst (search_best_practices (\<lambda>s. s)
        \<lparr>repoDir = Some (\<lambda>p. Some [FileEnt ''README.md'' ''hello'']),
         console = [(LOG, ''Pulling repository...'')], calls = [CallEnsureRepo]\<rparr> BACKEND ''error'')
     = Inl (Error ''Failed to read AGENTS.md for backend: Error: ENOENT: no such file or directory, open'')
   \<and> ensureRepo \<lparr>git_clone = \<lambda>d. (None, d), git_pull = \<lambda>d. (None, d)\<rparr>
        \<lparr>repoDir = Some (\<lambda>p. Some [FileEnt ''README.md'' ''hello'']), console = [], calls = []\<rparr>
     = (Inr (),
        \<lparr>repoDir = Some (\<lambda>p. Some [FileEnt ''README.md'' ''hello'']),
         console = [(LOG, ''Pulling repository...'')], calls = [CallEnsureRepo]\<rparr>)
   \<and> fst (read_resource \<lparr>git_clone = \<lambda>d. (None, d), git_pull = \<lambda>d. (None, d)\<rparr>
        \<lparr>repoDir = Some (\<lambda>p. Some [FileEnt ''README.md'' ''hello'']), console = [], calls = []\<rparr>
        BACKEND)
     = Inl (Error ''Failed to read AGENTS.md for backend: Error: ENOENT: no such file or directory, open'')"
proof -
  let ?wc = "\<lambda>p::PLATFORMS. Some [FileEnt ''README.md'' ''hello'']"
  let ?w = "\<lparr>repoDir = Some ?wc, console = [(LOG, ''Pulling repository...'')], calls = [CallEnsureRepo]\<rparr>"
  let ?start = "\<lparr>repoDir = Some ?wc, console = [], calls = []\<rparr>"
  let ?r = "\<lparr>git_clone = \<lambda>d. (None, d), git_pull = \<lambda>d. (None, d)\<rparr>"
  have h: "readFile_agents ?w BACKEND = Inl (Error ''ENOENT: no such file or directory, open'')"
    by (simp add: readFile_agents_def)
  have en: "ensureRepo ?r ?start = (Inr (), ?w)"
    by (simp add: ensureRepo_def Let_def console_write_def record_call_def)
  from readAgentsMd_failure_surfaces [OF h, of "\<lambda>s. s" "''error''" ?r] en h
  show ?thesis by (simp add: error_to_string_def)
qed

lemma context_headings:
  "context_heading BACKEND = ''## BACKEND AGENTS.md\<newline>\<newline>''"
  "context_heading FRONTEND = ''## FRONTEND AGENTS.md\<newline>\<newline>''"
  "context_heading MOBILE = ''## MOBILE AGENTS.md\<newline>\<newline>''"
  by code_simp+

lemma context_separator_eq: "context_separator = ''\<newline>\<newline>---\<newline>\<newline>''"
  by code_simp

text \<open>
  Claim C7. \<open>get_all_contexts\<close> calls \<open>readAgentsMd\<close> exactly once for each configured
  platform, in the order of the configuration (backend, frontend, mobile). When every
  document can be read, its output is, for each platform in that order, the heading of
  the platform followed by the whole text of its document, with the horizontal rule
  \<open>---\<close> (between blank lines) between consecutive platforms.
\<close>

theorem get_all_contexts_concatenates:
  "calls (snd (get_all_contexts w))
     = calls w @ [CallReadAgentsMd BACKEND, CallReadAgentsMd FRONTEND, CallReadAgentsMd MOBILE]
   \<and> ((\<forall>p. readFile_agents w p = Inr (doc p)) \<longrightarrow>
        fst (get_all_contexts w)
          = Inr (''## BACKEND AGENTS.md\<newline>\<newline>'' @ doc BACKEND @ ''\<newline>\<newline>---\<newline>\<newline>''
                 @ ''## FRONTEND AGENTS.md\<newline>\<newline>'' @ doc FRONTEND @ ''\<newline>\<newline>---\<newline>\<newline>''
                 @ ''## MOBILE AGENTS.md\<newline>\<newline>'' @ doc MOBILE))"
proof (intro conjI impI)
  show "calls (snd (get_all_contexts w))
           = calls w @ [CallReadAgentsMd BACKEND, CallReadAgentsMd FRONTEND, CallReadAgentsMd MOBILE]"
    by (simp add: get_all_contexts_calls config_platforms_def)
  assume all_read: "\<forall>p. readFile_agents w p = Inr (doc p)"
  have rd: "fst (readAgentsMd w p) = Inr (doc p)" for p
    using all_read by (simp add: readAgentsMd_result)
  have "fst (map_platforms w config_platforms)
          = map Inr (map (\<lambda>p. context_heading p @ doc p) config_platforms)"
    by (simp add: map_platforms_results rd)
  then have "fst (get_all_contexts w)
          = Inr (join context_separator (map (\<lambda>p. context_heading p @ doc p) config_platforms))"
    by (simp only: get_all_contexts_result Promise_all_Inr sum.case)
  then show "fst (get_all_contexts w)
           = Inr (''## BACKEND AGENTS.md\<newline>\<newline>'' @ doc BACKEND @ ''\<newline>\<newline>---\<newline>\<newline>''
                  @ ''## FRONTEND AGENTS.md\<newline>\<newline>'' @ doc FRONTEND @ ''\<newline>\<newline>---\<newline>\<newline>''
                  @ ''## MOBILE AGENTS.md\<newline>\<newline>'' @ doc MOBILE)"
    by (simp add: config_platforms_def context_headings context_separator_eq)
qed

text \<open>A working copy in which the document of each platform is the platform's name.\<close>

theorem get_all_contexts_concatenates_witness:
  "(\<forall>p. readFile_agents
          \<lparr>repoDir = Some (\<lambda>p. Some [FileEnt ''AGENTS.md'' (platform_value p)]), console = [], calls = []\<rparr> p
        = Inr (platform_value p))
   \<and> calls (snd (get_all_contexts
        \<lparr>repoDir = Some (\<lambda>p. Some [FileEnt ''AGENTS.md'' (platform_value p)]), console = [], calls = []\<rparr>))
     = [CallReadAgentsMd BACKEND, CallReadAgentsMd FRONTEND, CallReadAgentsMd MOBILE]
   \<and> fst (get_all_contexts
        \<lparr>repoDir = Some (\<lambda>p. Some [FileEnt ''AGENTS.md'' (platform_value p)]), console = [], calls = []\<rparr>)
     = Inr ''## BACKEND AGENTS.md\<newline>\<newline>backend\<newline>\<newline>---\<newline>\<newline>## FRONTEND AGENTS.md\<newline>\<newline>frontend\<newline>\<newline>---\<newline>\<newline>## MOBILE AGENTS.md\<newline>\<newline>mobile''"
proof -
  let ?w = "\<lparr>repoDir = Some (\<lambda>p. Some [FileEnt ''AGENTS.md'' (platform_value p)]), console = [], calls = []\<rparr>"
  have h: "\<forall>p. readFile_agents ?w p = Inr (platform_value p)"
    by (simp add: readFile_agents_def)
  from get_all_contexts_concatenates [of ?w platform_value] h
  show ?thesis by simp
qed

section \<open>Properties of the directory listing\<close>

lemma traverse_files_all:
  fixes files :: "string list"
  shows "\<forall>fs. traverse es prefix fs = fs @ traverse es prefix []"
proof (induction es prefix files rule: traverse.induct)
  case (1 prefix files)
  then show ?case by simp
next
  case (2 entry entries prefix files)
  show ?case
  proof (cases "skipped (entry_name entry)")
    case True
    have ih: "\<forall>fs. traverse entries prefix fs = fs @ traverse entries prefix []"
      using "2.IH"(1) [OF True] .
    show ?thesis
    proof
      fix fs
      have "traverse (entry # entries) prefix fs = traverse entries prefix fs"
        using True by simp
      also have "\<dots> = fs @ traverse entries prefix []"
        using ih by blast
      also have "traverse entries prefix [] = traverse (entry # entries) prefix []"
        using True by simp
      finally show "traverse (entry # entries) prefix fs = fs @ traverse (entry # entries) prefix []" .
    qed
  next
    case False
    let ?rel = "path_join prefix (entry_name entry)"
    show ?thesis
    proof (cases entry)
      case (FileEnt name content)
      have ih: "\<forall>fs. traverse entries prefix fs = fs @ traverse entries prefix []"
        using "2.IH"(2) [OF False refl FileEnt] .
      show ?thesis
      proof
        fix fs
        have "traverse (entry # entries) prefix fs = traverse entries prefix (fs @ [?rel])"
          using False FileEnt by (simp add: Let_def)
        also have "\<dots> = fs @ [?rel] @ traverse entries prefix []"
          using ih by (metis append.assoc)
        also have "[?rel] @ traverse entries prefix [] = traverse entries prefix [?rel]"
          using ih by (metis append_Nil)
        also have "traverse entries prefix [?rel] = traverse (entry # entries) prefix []"
          using False FileEnt by (simp add: Let_def)
        finally show "traverse (entry # entries) prefix fs = fs @ traverse (entry # entries) prefix []" .
      qed
    next
      case (DirEnt name children)
      have ihc: "\<forall>fs. traverse children ?rel fs = fs @ traverse children ?rel []"
        using "2.IH"(3) [OF False refl DirEnt] .
      have ihe: "\<forall>fs. traverse entries prefix fs = fs @ traverse entries prefix []"
        using "2.IH"(4) [OF False refl DirEnt] .
      show ?thesis
      proof
        fix fs
        let ?sub = "traverse children ?rel []"
        have "traverse (entry # entries) prefix fs
                = traverse entries prefix (traverse children ?rel (fs @ [?rel @ ''/'']))"
          using False DirEnt by (simp add: Let_def)
        also have "\<dots> = traverse entries prefix (fs @ [?rel @ ''/''] @ ?sub)"
          using ihc by (metis append.assoc)
        also have "\<dots> = fs @ ([?rel @ ''/''] @ ?sub) @ traverse entries prefix []"
          using ihe by (metis append.assoc)
        also have "([?rel @ ''/''] @ ?sub) @ traverse entries prefix []
                     = traverse entries prefix ([?rel @ ''/''] @ ?sub)"
          using ihe by metis
        also have "[?rel @ ''/''] @ ?sub = traverse children ?rel ([] @ [?rel @ ''/''])"
          using ihc by (metis append_Nil)
        also have "traverse entries prefix (traverse children ?rel ([] @ [?rel @ ''/'']))
                     = traverse (entry # entries) prefix []"
          using False DirEnt by (simp add: Let_def)
        finally show "traverse (entry # entries) prefix fs = fs @ traverse (entry # entries) prefix []" .
      qed
    qed
  qed
qed

lemma traverse_files: "traverse es prefix files = files @ traverse es prefix []"
  using traverse_files_all by blast

lemma traverse_Cons_skipped:
  "skipped (entry_name e) \<Longrightarrow> traverse (e # es) prefix [] = traverse es prefix []"
  by simp

lemma traverse_Cons_file:
  "\<not> skipped name \<Longrightarrow>
     traverse (FileEnt name content # es) prefix [] = path_join prefix name # traverse es prefix []"
  using traverse_files [of es prefix "[path_join prefix name]"] by (simp add: Let_def)

lemma traverse_Cons_dir:
  "\<not> skipped name \<Longrightarrow>
     traverse (DirEnt name children # es) prefix []
       = (path_join prefix name @ ''/'') # traverse children (path_join prefix name) []
           @ traverse es prefix []"
proof -
  assume n: "\<not> skipped name"
  let ?rel = "path_join prefix name"
  have "traverse (DirEnt name children # es) prefix []
          = traverse es prefix (traverse children ?rel [?rel @ ''/''])"
    using n by (simp add: Let_def)
  also have "\<dots> = traverse children ?rel [?rel @ ''/''] @ traverse es prefix []"
    by (rule traverse_files)
  also have "traverse children ?rel [?rel @ ''/''] = [?rel @ ''/''] @ traverse children ?rel []"
    by (rule traverse_files)
  finally show ?thesis by simp
qed

lemma traverse_append:
  "traverse (es1 @ es2) prefix [] = traverse es1 prefix [] @ traverse es2 prefix []"
proof (induction es1)
  case Nil
  then show ?case by simp
next
  case (Cons e es1)
  show ?case
  proof (cases "skipped (entry_name e)")
    case True
    then show ?thesis using Cons.IH by simp
  next
    case False
    show ?thesis
    proof (cases e)
      case (FileEnt name content)
      then have "\<not> skipped name" using False by simp
      then show ?thesis using Cons.IH FileEnt
        by (simp add: traverse_Cons_file del: traverse.simps)
    next
      case (DirEnt name children)
      then have "\<not> skipped name" using False by simp
      then show ?thesis using Cons.IH DirEnt
        by (simp add: traverse_Cons_dir del: traverse.simps)
    qed
  qed
qed


lemma split_str_no_sep: "sep \<notin> set s \<Longrightarrow> split_str sep s = [s]"
  by (induction s) auto

lemma not_skipped_Nil: "\<not> skipped []"
  by (simp add: skipped_def)

lemma components_path_join:
  assumes "valid_name name"
  shows "set (split_str (CHR ''/'') (path_join prefix name))
           \<subseteq> set (split_str (CHR ''/'') prefix) \<union> {name}"
proof -
  have n: "split_str (CHR ''/'') name = [name]"
    using assms by (simp add: valid_name_def split_str_no_sep)
  show ?thesis
  proof (cases "prefix = []")
    case True
    then show ?thesis by (simp add: path_join_def n)
  next
    case False
    have "path_join prefix name = prefix @ CHR ''/'' # name"
      using False by (simp add: path_join_def)
    then show ?thesis by (simp add: split_str_append n)
  qed
qed

lemma components_dir:
  "set (split_str (CHR ''/'') (rel @ ''/'')) = set (split_str (CHR ''/'') rel) \<union> {[]}"
  using split_str_append [of "CHR ''/''" rel "[]"] by simp

lemma valid_entries_Cons:
  "valid_entries (e # es) \<Longrightarrow> valid_name (entry_name e) \<and> valid_entries es"
  by (cases e) simp_all

lemma traverse_components:
  fixes files :: "string list"
  shows "valid_entries es \<Longrightarrow>
         (\<forall>c \<in> set (split_str (CHR ''/'') prefix). \<not> skipped c) \<Longrightarrow>
         (\<forall>s \<in> set (traverse es prefix []). \<forall>c \<in> set (split_str (CHR ''/'') s). \<not> skipped c)"
proof (induction es prefix files rule: traverse.induct)
  case (1 prefix files)
  then show ?case by simp
next
  case (2 entry entries prefix files)
  have ve: "valid_entries entries" and vn: "valid_name (entry_name entry)"
    using "2.prems"(1) valid_entries_Cons by blast+
  show ?case
  proof (cases "skipped (entry_name entry)")
    case True
    then show ?thesis using "2.IH"(1) [OF True ve "2.prems"(2)] by simp
  next
    case False
    let ?rel = "path_join prefix (entry_name entry)"
    have rel: "\<forall>c \<in> set (split_str (CHR ''/'') ?rel). \<not> skipped c"
      using components_path_join [OF vn, of prefix] "2.prems"(2) False by blast
    show ?thesis
    proof (cases entry)
      case (FileEnt name content)
      have rest: "\<forall>s \<in> set (traverse entries prefix []). \<forall>c \<in> set (split_str (CHR ''/'') s). \<not> skipped c"
        using "2.IH"(2) [OF False refl FileEnt ve "2.prems"(2)] .
      have "traverse (entry # entries) prefix [] = ?rel # traverse entries prefix []"
        using False FileEnt traverse_Cons_file [of name content entries prefix] by simp
      then show ?thesis using rel rest by simp
    next
      case (DirEnt name children)
      have vc: "valid_entries children" using "2.prems"(1) DirEnt by simp
      have sub: "\<forall>s \<in> set (traverse children ?rel []). \<forall>c \<in> set (split_str (CHR ''/'') s). \<not> skipped c"
        using "2.IH"(3) [OF False refl DirEnt vc rel] .
      have rest: "\<forall>s \<in> set (traverse entries prefix []). \<forall>c \<in> set (split_str (CHR ''/'') s). \<not> skipped c"
        using "2.IH"(4) [OF False refl DirEnt ve "2.prems"(2)] .
      have dir: "\<forall>c \<in> set (split_str (CHR ''/'') (?rel @ ''/'')). \<not> skipped c"
        using rel not_skipped_Nil by (simp only: components_dir) blast
      have "traverse (entry # entries) prefix []
              = (?rel @ ''/'') # traverse children ?rel [] @ traverse entries prefix []"
        using False DirEnt traverse_Cons_dir [of name children entries prefix] by simp
      then show ?thesis using dir sub rest by (simp del: traverse.simps) blast
    qed
  qed
qed

lemma startsWith_append: "startsWith s (a @ b) \<Longrightarrow> startsWith s a"
  by (auto simp: startsWith_iff)

lemma traverse_under_prefix:
  fixes files :: "string list"
  shows "prefix \<noteq> [] \<Longrightarrow> \<forall>s \<in> set (traverse es prefix []). startsWith s (prefix @ ''/'')"
proof (induction es prefix files rule: traverse.induct)
  case (1 prefix files)
  then show ?case by simp
next
  case (2 entry entries prefix files)
  show ?case
  proof (cases "skipped (entry_name entry)")
    case True
    then show ?thesis using "2.IH"(1) [OF True "2.prems"] by simp
  next
    case False
    let ?rel = "path_join prefix (entry_name entry)"
    have rel_eq: "?rel = (prefix @ ''/'') @ entry_name entry"
      using "2.prems" by (simp add: path_join_def)
    have rel: "startsWith ?rel (prefix @ ''/'')"
      unfolding rel_eq startsWith_iff by blast
    have rel_ne: "?rel \<noteq> []" using rel_eq by simp
    show ?thesis
    proof (cases entry)
      case (FileEnt name content)
      have rest: "\<forall>s \<in> set (traverse entries prefix []). startsWith s (prefix @ ''/'')"
        using "2.IH"(2) [OF False refl FileEnt "2.prems"] .
      have "traverse (entry # entries) prefix [] = ?rel # traverse entries prefix []"
        using False FileEnt traverse_Cons_file [of name content entries prefix] by simp
      then show ?thesis using rel rest by simp
    next
      case (DirEnt name children)
      have sub: "\<forall>s \<in> set (traverse children ?rel []). startsWith s (?rel @ ''/'')"
        using "2.IH"(3) [OF False refl DirEnt rel_ne] .
      have sub': "\<forall>s \<in> set (traverse children ?rel []). startsWith s (prefix @ ''/'')"
      proof
        fix s assume "s \<in> set (traverse children ?rel [])"
        then have "startsWith s (?rel @ ''/'')" using sub by blast
        then have "startsWith s ((prefix @ ''/'') @ (entry_name entry @ ''/''))"
          by (simp add: rel_eq)
        then show "startsWith s (prefix @ ''/'')" by (rule startsWith_append)
      qed
      have rest: "\<forall>s \<in> set (traverse entries prefix []). startsWith s (prefix @ ''/'')"
        using "2.IH"(4) [OF False refl DirEnt "2.prems"] .
      have dir: "startsWith (?rel @ ''/'') (prefix @ ''/'')"
        unfolding rel_eq startsWith_iff by simp
      have "traverse (entry # entries) prefix []
              = (?rel @ ''/'') # traverse children ?rel [] @ traverse entries prefix []"
        using False DirEnt traverse_Cons_dir [of name children entries prefix] by simp
      then show ?thesis using dir sub' rest by (simp del: traverse.simps) blast
    qed
  qed
qed

lemma path_join_not_Nil: "valid_name name \<Longrightarrow> path_join prefix name \<noteq> []"
  by (simp add: path_join_def valid_name_def)

lemma last_path_join: "valid_name name \<Longrightarrow> last (path_join prefix name) \<noteq> CHR ''/''"
proof -
  assume v: "valid_name name"
  then have "name \<noteq> []" and "CHR ''/'' \<notin> set name" by (simp_all add: valid_name_def)
  then have "last name \<noteq> CHR ''/''" using last_in_set [of name] by metis
  moreover have "last (path_join prefix name) = last name"
    using \<open>name \<noteq> []\<close> by (simp add: path_join_def)
  ultimately show ?thesis by simp
qed


text \<open>
  Claim C5. For a platform whose directory exists, \<open>getDirectoryStructure\<close> returns the
  result of \<open>traverse\<close> on its listing, and:
  \<^item> no path in the result has a component (so no entry has a name) that begins with
    \<open>.\<close> or is \<open>node_modules\<close>;
  \<^item> a directory that is not skipped contributes its path with the separator \<open>/\<close>
    appended, immediately followed by the paths of its own subtree, all of which begin
    with the directory's path and the separator; only then come the entries after it,
    and the entries before it come first (depth-first, parent before children);
  \<^item> a file that is not skipped contributes its path, which does not end with the
    separator;
  \<^item> a skipped entry contributes nothing, whatever is below it.
\<close>

theorem getDirectoryStructure_preorder:
  assumes "readdir_platform w platform = Inr entries" and "valid_entries entries"
  shows "fst (getDirectoryStructure w platform) = Inr (traverse entries [] [])
   \<and> (\<forall>s \<in> set (traverse entries [] []). \<forall>c \<in> set (split_str (CHR ''/'') s).
         \<not> startsWith c ''.'' \<and> c \<noteq> ''node_modules'')
   \<and> (\<forall>before name children after prefix.
         \<not> skipped name \<and> valid_name name \<longrightarrow>
           traverse (before @ DirEnt name children # after) prefix []
             = traverse before prefix [] @ [path_join prefix name @ ''/'']
                 @ traverse children (path_join prefix name) [] @ traverse after prefix []
           \<and> (\<forall>s \<in> set (traverse children (path_join prefix name) []).
                 startsWith s (path_join prefix name @ ''/'')))
   \<and> (\<forall>before name content after prefix.
         \<not> skipped name \<and> valid_name name \<longrightarrow>
           traverse (before @ FileEnt name content # after) prefix []
             = traverse before prefix [] @ [path_join prefix name] @ traverse after prefix []
           \<and> last (path_join prefix name) \<noteq> CHR ''/'')
   \<and> (\<forall>before e after prefix.
         skipped (entry_name e) \<longrightarrow>
           traverse (before @ e # after) prefix []
             = traverse before prefix [] @ traverse after prefix [])"
proof (intro conjI allI impI ballI)
  show "fst (getDirectoryStructure w platform) = Inr (traverse entries [] [])"
    using assms(1)
    by (simp add: getDirectoryStructure_def Let_def readdir_platform_record_call)
next
  fix s c
  assume "s \<in> set (traverse entries [] [])" and "c \<in> set (split_str (CHR ''/'') s)"
  moreover have "\<forall>c \<in> set (split_str (CHR ''/'') []). \<not> skipped c"
    by (simp add: not_skipped_Nil)
  ultimately have "\<not> skipped c"
    using traverse_components [OF assms(2), of "[]"] by blast
  then show "\<not> startsWith c ''.''" and "c \<noteq> ''node_modules''"
    by (simp_all add: skipped_def)
next
  fix before name children after prefix
  assume "\<not> skipped name \<and> valid_name name"
  then show "traverse (before @ DirEnt name children # after) prefix []
             = traverse before prefix [] @ [path_join prefix name @ ''/'']
                 @ traverse children (path_join prefix name) [] @ traverse after prefix []"
    by (simp add: traverse_append traverse_Cons_dir del: traverse.simps)
next
  fix before name children after prefix s
  assume "\<not> skipped name \<and> valid_name name"
    and "s \<in> set (traverse children (path_join prefix name) [])"
  then show "startsWith s (path_join prefix name @ ''/'')"
    using traverse_under_prefix [of "path_join prefix name" children] path_join_not_Nil
    by blast
next
  fix before name content after prefix
  assume "\<not> skipped name \<and> valid_name name"
  then show "traverse (before @ FileEnt name content # after) prefix []
             = traverse before prefix [] @ [path_join prefix name] @ traverse after prefix []"
    by (simp add: traverse_append traverse_Cons_file del: traverse.simps)
next
  fix before name content after prefix
  assume "\<not> skipped name \<and> valid_name name"
  then show "last (path_join prefix name) \<noteq> CHR ''/''"
    using last_path_join by blast
next
  fix before e after prefix
  assume "skipped (entry_name e)"
  then show "traverse (before @ e # after) prefix []
             = traverse before prefix [] @ traverse after prefix []"
    by (simp add: traverse_append traverse_Cons_skipped del: traverse.simps)
qed


text \<open>A backend directory with a hidden file, a hidden directory and a
  \<open>node_modules\<close> directory among its entries.\<close>

theorem getDirectoryStructure_preorder_witness:
  "readdir_platform
     \<lparr>repoDir = Some (\<lambda>p. Some
        [FileEnt ''a.ts'' ''x'',
         DirEnt ''src'' [FileEnt ''.env'' ''k'', DirEnt ''node_modules'' [FileEnt ''m.js'' ''m''],
                         DirEnt ''lib'' [FileEnt ''u.ts'' ''u''], FileEnt ''index.ts'' ''i''],
         DirEnt ''.git'' [FileEnt ''HEAD'' ''h''],
         FileEnt ''z.md'' ''z'']), console = [], calls = []\<rparr> BACKEND
     = Inr [FileEnt ''a.ts'' ''x'',
         DirEnt ''src'' [FileEnt ''.env'' ''k'', DirEnt ''node_modules'' [FileEnt ''m.js'' ''m''],
                         DirEnt ''lib'' [FileEnt ''u.ts'' ''u''], FileEnt ''index.ts'' ''i''],
         DirEnt ''.git'' [FileEnt ''HEAD'' ''h''],
         FileEnt ''z.md'' ''z'']
   \<and> valid_entries [FileEnt ''a.ts'' ''x'',
         DirEnt ''src'' [FileEnt ''.env'' ''k'', DirEnt ''node_modules'' [FileEnt ''m.js'' ''m''],
                         DirEnt ''lib'' [FileEnt ''u.ts'' ''u''], FileEnt ''index.ts'' ''i''],
         DirEnt ''.git'' [FileEnt ''HEAD'' ''h''],
         FileEnt ''z.md'' ''z'']
   \<and> \<not> skipped ''src'' \<and> valid_name ''src'' \<and> skipped ''.git'' \<and> skipped ''node_modules''
   \<and> fst (getDirectoryStructure
     \<lparr>repoDir = Some (\<lambda>p. Some
        [FileEnt ''a.ts'' ''x'',
         DirEnt ''src'' [FileEnt ''.env'' ''k'', DirEnt ''node_modules'' [FileEnt ''m.js'' ''m''],
                         DirEnt ''lib'' [FileEnt ''u.ts'' ''u''], FileEnt ''index.ts'' ''i''],
         DirEnt ''.git'' [FileEnt ''HEAD'' ''h''],
         FileEnt ''z.md'' ''z'']), console = [], calls = []\<rparr> BACKEND)
     = Inr [''a.ts'', ''src/'', ''src/lib/'', ''src/lib/u.ts'', ''src/index.ts'', ''z.md'']"
proof -
  let ?entries = "[FileEnt ''a.ts'' ''x'',
         DirEnt ''src'' [FileEnt ''.env'' ''k'', DirEnt ''node_modules'' [FileEnt ''m.js'' ''m''],
                         DirEnt ''lib'' [FileEnt ''u.ts'' ''u''], FileEnt ''index.ts'' ''i''],
         DirEnt ''.git'' [FileEnt ''HEAD'' ''h''],
         FileEnt ''z.md'' ''z'']"
  let ?w = "\<lparr>repoDir = Some (\<lambda>p::PLATFORMS. Some ?entries), console = [], calls = []\<rparr>"
  have h1: "readdir_platform ?w BACKEND = Inr ?entries"
    by (simp add: readdir_platform_def)
  have h2: "valid_entries ?entries"
    by (simp add: valid_name_def)
  have names: "\<not> skipped ''src'' \<and> valid_name ''src'' \<and> skipped ''.git'' \<and> skipped ''node_modules''"
    by (simp add: skipped_def valid_name_def)
  have ev: "traverse ?entries [] []
              = [''a.ts'', ''src/'', ''src/lib/'', ''src/lib/u.ts'', ''src/index.ts'', ''z.md'']"
    by code_simp
  from getDirectoryStructure_preorder [OF h1 h2]
  have "fst (getDirectoryStructure ?w BACKEND) = Inr (traverse ?entries [] [])"
    by blast
  then have "fst (getDirectoryStructure ?w BACKEND)
               = Inr [''a.ts'', ''src/'', ''src/lib/'', ''src/lib/u.ts'', ''src/index.ts'', ''z.md'']"
    by (simp only: ev)
  with h1 h2 names show ?thesis by (intro conjI) blast+
qed

section \<open>Properties of the HTTP application and of concurrent refreshes\<close>

lemma dispatch_createApp_mcp:
  assumes "req_path req = ''/mcp''"
  shows "handle_request transport req =
           (case req_method req of
              POST \<Rightarrow> (case transport req of
                          Inr reply \<Rightarrow> reply
                        | Inl e \<Rightarrow> \<lparr>status = 500, body = JsonRpcError (- 32603) ''Internal server error''\<rparr>)
            | GET \<Rightarrow> \<lparr>status = 405, body = JsonRpcError (- 32000) ''Method not allowed. Use POST.''\<rparr>
            | DELETE \<Rightarrow> \<lparr>status = 405, body = JsonRpcError (- 32000) ''Method not allowed.''\<rparr>
            | PUT \<Rightarrow> express_not_found
            | PATCH \<Rightarrow> express_not_found)"
  using assms by (cases "req_method req") (simp_all add: handle_request_def createApp_def)

text \<open>
  Claim C8, as amended. For every GET or DELETE request to the path \<open>/mcp\<close> the server
  responds with status 405 and a JSON-RPC error body with code -32000. For the other
  verbs that are not POST (PUT, PATCH) no route is registered, and the request gets
  the framework's answer for an unmatched request.
\<close>

theorem get_and_delete_not_allowed:
  assumes "req_path req = ''/mcp''"
  shows "(req_method req = GET \<or> req_method req = DELETE \<longrightarrow>
            status (handle_request transport req) = 405
            \<and> error_code (body (handle_request transport req)) = Some (- 32000))
         \<and> (req_method req = PUT \<or> req_method req = PATCH \<longrightarrow>
            handle_request transport req = express_not_found)"
  using dispatch_createApp_mcp [OF assms, of transport] by auto

text \<open>A DELETE request to \<open>/mcp\<close>.\<close>

theorem get_and_delete_not_allowed_witness:
  "req_path \<lparr>req_method = DELETE, req_path = ''/mcp''\<rparr> = ''/mcp''
   \<and> req_method \<lparr>req_method = DELETE, req_path = ''/mcp''\<rparr> = DELETE
   \<and> status (handle_request (\<lambda>req. Inl (Error ''closed'')) \<lparr>req_method = DELETE, req_path = ''/mcp''\<rparr>) = 405
   \<and> error_code (body (handle_request (\<lambda>req. Inl (Error ''closed''))
         \<lparr>req_method = DELETE, req_path = ''/mcp''\<rparr>)) = Some (- 32000)"
proof -
  have h: "req_path \<lparr>req_method = DELETE, req_path = ''/mcp''\<rparr> = ''/mcp''" by simp
  from get_and_delete_not_allowed [OF h, of "\<lambda>req. Inl (Error ''closed'')"] h
  show ?thesis by simp
qed

text \<open>Claim C8 as stated fails: a PUT request to \<open>/mcp\<close> is not answered with
  status 405.\<close>

theorem put_is_not_answered_405_counterexample:
  "status (handle_request (\<lambda>req. Inl (Error ''closed'')) \<lparr>req_method = PUT, req_path = ''/mcp''\<rparr>) \<noteq> 405"
  by (simp add: handle_request_def createApp_def express_not_found_def)

text \<open>
  Claim C9. The claim is that at most one clone or pull runs at any time. With the
  directory present and two calls of \<open>ensureRepo\<close> in flight, letting the first and then
  the second take a step starts two pulls, and both are running at the same time: each
  pull has a \<open>simple-git\<close> instance of its own, so the limit of one process set on
  \<open>git\<close> does not hold them apart. (Clones, which all go through \<open>git\<close>, do not
  overlap: \<open>clones_serialized\<close> below.)
\<close>

theorem concurrent_pulls_overlap:
  "run \<lparr>dirExists = True, inFlight = [Entered, Entered]\<rparr> [0, 1]
     = \<lparr>dirExists = True, inFlight = [PullRunning, PullRunning]\<rparr>
   \<and> git_running (run \<lparr>dirExists = True, inFlight = [Entered, Entered]\<rparr> [0, 1]) = 2"
  by (simp add: run_def step_def git_running_def)

lemma filter_update_length:
  "i < length xs \<Longrightarrow>
     length (filter P (xs[i := v])) + (if P (xs ! i) then 1 else 0)
       = length (filter P xs) + (if P v then 1 else 0)"
proof (induction xs arbitrary: i)
  case Nil
  then show ?case by simp
next
  case (Cons x xs)
  then show ?case by (cases i) auto
qed

lemma clones_serialized:
  assumes "clones_running s \<le> maxConcurrentProcesses"
  shows "clones_running (step s i) \<le> maxConcurrentProcesses"
proof (cases "i < length (inFlight s)")
  case False
  then show ?thesis using assms by (simp add: step_def)
next
  case True
  note upd = filter_update_length [OF True, of "\<lambda>p. p = CloneRunning"]
  show ?thesis
  proof (cases "inFlight s ! i")
    case Entered
    then show ?thesis using assms True upd [of PullRunning] upd [of CloneQueued]
      by (auto simp: step_def clones_running_def)
  next
    case CloneQueued
    then show ?thesis using assms True upd [of CloneRunning]
      by (auto simp: step_def clones_running_def maxConcurrentProcesses_def)
  next
    case CloneRunning
    then show ?thesis using assms True upd [of Returned]
      by (auto simp: step_def clones_running_def)
  next
    case PullRunning
    then show ?thesis using assms True upd [of Returned]
      by (auto simp: step_def clones_running_def)
  next
    case Returned
    then show ?thesis using assms True by (simp add: step_def)
  qed
qed

end
